theory Spec2Isabelle
  imports Main "HOL-Library.Word"
begin

section \<open>The input object of alsa-lib (src/input.c)\<close>

text \<open>
  The file implements a handle \<^verbatim>\<open>snd_input_t\<close> with two backends: a stdio stream and
  a memory buffer. The embedding follows the C text function by function. It covers the
  buffer backend, the close function of the stdio backend, \<^verbatim>\<open>snd_input_close\<close> and the two
  constructors \<^verbatim>\<open>snd_input_stdio_attach\<close> and \<^verbatim>\<open>snd_input_buffer_open\<close>. The other stdio
  functions only forward to the C library, and the other public functions only call
  through the table of the handle.

  \<^item> \<^verbatim>\<open>unsigned char\<close> is an 8-bit word, \<^verbatim>\<open>int\<close> a 32-bit word read with \<open>sint\<close>,
    \<^verbatim>\<open>size_t\<close> a 64-bit word (LP64); \<open>+\<close> and \<open>-\<close> on words wrap as in C.
  \<^item> The array owned by a buffer backend (\<^verbatim>\<open>buffer->buf\<close>) is the list of its bytes; its
    length is the size of the allocation. The cursor \<^verbatim>\<open>buffer->ptr\<close> is the offset of the
    pointer from the start of that array, so \<^verbatim>\<open>buffer->ptr == buffer->buf\<close> is \<open>ptr = 0\<close>.
  \<^item> Memory of the caller (the destination of \<^verbatim>\<open>gets\<close>) is a store from addresses to
    bytes; a \<^verbatim>\<open>char *\<close> of the caller is an address, and a result that may be \<^verbatim>\<open>NULL\<close>
    is an \<open>option\<close>.
  \<^item> A failed \<^verbatim>\<open>assert\<close>, an access outside an array and a signed overflow end the call
    with an error value; so do the return of \<^verbatim>\<open>-ENOMEM\<close> and the use of a backend state
    as the state of the other backend.
\<close>

type_synonym byte = "8 word"
type_synonym c_int = "32 word"
type_synonym size_t = "64 word"
type_synonym addr = nat
type_synonym mem = "addr \<Rightarrow> byte"

datatype error = ENOMEM | Assertion_failed | Out_of_bounds | Signed_overflow | Bad_cast

definition EOF :: c_int where
  "EOF = - 1"

subsection \<open>The buffer backend\<close>

text \<open>
  \<^verbatim>\<open>typedef struct _snd_input_buffer { unsigned char *buf; unsigned char *ptr; size_t size; }\<close>
\<close>

record snd_input_buffer =
  buf :: "byte list"
  ptr :: nat
  size_b :: size_t

text \<open>
  \<^verbatim>\<open>snd_input_buffer_getc\<close>: at \<^verbatim>\<open>size == 0\<close> the result is \<^verbatim>\<open>EOF\<close>; otherwise the size is
  decremented, the byte under the cursor is read (promoted from \<^verbatim>\<open>unsigned char\<close> to
  \<^verbatim>\<open>int\<close>) and the cursor moves on.
\<close>

definition snd_input_buffer_getc ::
  "snd_input_buffer \<Rightarrow> error + (c_int \<times> snd_input_buffer)" where
  "snd_input_buffer_getc buffer =
     (if size_b buffer = 0 then Inr (EOF, buffer)
      else
        let buffer1 = buffer\<lparr>size_b := size_b buffer - 1\<rparr> in
        if ptr buffer1 < length (buf buffer1)
        then Inr (ucast (buf buffer1 ! ptr buffer1), buffer1\<lparr>ptr := ptr buffer1 + 1\<rparr>)
        else Inl Out_of_bounds)"

text \<open>
  \<^verbatim>\<open>snd_input_buffer_ungetc\<close>: at the start of the array the result is \<^verbatim>\<open>EOF\<close>; otherwise
  the cursor steps back, \<^verbatim>\<open>assert(*buffer->ptr == (unsigned char) c)\<close> is checked, the size
  is incremented and \<^verbatim>\<open>c\<close> is returned.
\<close>

definition snd_input_buffer_ungetc ::
  "snd_input_buffer \<Rightarrow> c_int \<Rightarrow> error + (c_int \<times> snd_input_buffer)" where
  "snd_input_buffer_ungetc buffer c =
     (if ptr buffer = 0 then Inr (EOF, buffer)
      else
        let buffer1 = buffer\<lparr>ptr := ptr buffer - 1\<rparr> in
        if \<not> ptr buffer1 < length (buf buffer1) then Inl Out_of_bounds
        else if buf buffer1 ! ptr buffer1 \<noteq> (ucast c :: byte) then Inl Assertion_failed
        else Inr (c, buffer1\<lparr>size_b := size_b buffer1 + 1\<rparr>))"

text \<open>
  \<^verbatim>\<open>snd_input_buffer_gets\<close>. The loop
  \<^verbatim>\<open>while (--size > 0 && bsize > 0) { c = *buffer->ptr++; bsize--; *str++ = c; if (c == '\n') break; }\<close>
  is the recursive function \<open>gets_loop\<close> over the variables it changes: the backend (its
  cursor), \<^verbatim>\<open>size\<close> (written \<open>sz\<close>), \<^verbatim>\<open>bsize\<close>, \<^verbatim>\<open>str\<close> and the caller's memory. \<^verbatim>\<open>--size\<close> is a
  decrement of a \<^verbatim>\<open>size_t\<close>: at 0 it wraps to the largest value. The result is the state at
  the exit of the loop. Each turn decrements \<^verbatim>\<open>bsize\<close>, which is positive, so the loop ends.
\<close>

function gets_loop ::
  "snd_input_buffer \<Rightarrow> size_t \<Rightarrow> size_t \<Rightarrow> addr \<Rightarrow> mem
     \<Rightarrow> error + (snd_input_buffer \<times> size_t \<times> addr \<times> mem)" where
  "gets_loop buffer sz bsize str m =
     (if 0 < sz - 1 \<and> 0 < bsize then
        if ptr buffer < length (buf buffer) then
          let c = buf buffer ! ptr buffer;
              buffer1 = buffer\<lparr>ptr := ptr buffer + 1\<rparr>;
              bsize1 = bsize - 1;
              m1 = m(str := c);
              str1 = str + 1
          in if c = 10 then Inr (buffer1, bsize1, str1, m1)
             else gets_loop buffer1 (sz - 1) bsize1 str1 m1
        else Inl Out_of_bounds
      else Inr (buffer, bsize, str, m))"
  by pat_completeness auto
termination
proof (relation "measure (\<lambda>(buffer, sz, bsize, str, m). unat bsize)")
  show "wf (measure (\<lambda>(buffer, sz, bsize, str, m). unat bsize))"
    by simp
next
  fix buffer :: snd_input_buffer and sz bsize :: size_t and str :: addr and m :: mem
    and c buffer1 bsize1 m1 str1
  assume "0 < sz - 1 \<and> 0 < bsize" and "bsize1 = bsize - 1"
  then have "unat bsize1 < unat bsize"
    by (simp add: unat_minus_one word_neq_0_conv [symmetric] unat_gt_0)
  then show "((buffer1, sz - 1, bsize1, str1, m1), (buffer, sz, bsize, str, m))
      \<in> measure (\<lambda>(buffer, sz, bsize, str, m). unat bsize)"
    by simp
qed

declare gets_loop.simps [simp del]

text \<open>
  After the loop: \<^verbatim>\<open>if (bsize == buffer->size) return NULL;\<close> then
  \<^verbatim>\<open>buffer->size = bsize; *str = '\0'; return str;\<close> where \<^verbatim>\<open>str\<close> is the pointer the loop
  has advanced.
\<close>

definition snd_input_buffer_gets ::
  "snd_input_buffer \<Rightarrow> addr \<Rightarrow> size_t \<Rightarrow> mem
     \<Rightarrow> error + (addr option \<times> snd_input_buffer \<times> mem)" where
  "snd_input_buffer_gets buffer str sz m =
     (case gets_loop buffer sz (size_b buffer) str m of
        Inl e \<Rightarrow> Inl e
      | Inr (buffer1, bsize, str1, m1) \<Rightarrow>
          if bsize = size_b buffer1 then Inr (None, buffer1, m1)
          else Inr (Some str1, buffer1\<lparr>size_b := bsize\<rparr>, m1(str1 := 0)))"

text \<open>
  \<^verbatim>\<open>snd_input_buffer_scanf\<close> is \<^verbatim>\<open>assert(0); return vsscanf(buffer->ptr, format, args);\<close>.
  The library function \<^verbatim>\<open>vsscanf\<close> is a parameter: it maps the bytes from the cursor on and
  the format to the number of items assigned and the values stored through the arguments.
  The backend is not changed on any path.
\<close>

definition c_assert :: "bool \<Rightarrow> error + unit" where
  "c_assert b = (if b then Inr () else Inl Assertion_failed)"

definition snd_input_buffer_scanf ::
  "(byte list \<Rightarrow> string \<Rightarrow> c_int \<times> 'v) \<Rightarrow> snd_input_buffer \<Rightarrow> string
     \<Rightarrow> error + ((c_int \<times> 'v) \<times> snd_input_buffer)" where
  "snd_input_buffer_scanf vsscanf buffer format =
     (case c_assert False of
        Inl e \<Rightarrow> Inl e
      | Inr _ \<Rightarrow> Inr (vsscanf (drop (ptr buffer) (buf buffer)) format, buffer))"

text \<open>\<^verbatim>\<open>snd_input_buffer_close\<close> frees the array and the backend and returns 0.\<close>

definition snd_input_buffer_close :: "snd_input_buffer \<Rightarrow> c_int" where
  "snd_input_buffer_close buffer = 0"

subsection \<open>The stdio backend\<close>

text \<open>
  \<^verbatim>\<open>typedef struct _snd_input_stdio { int close; FILE *fp; }\<close>. A \<^verbatim>\<open>FILE *\<close> is the
  identity of a stream; the state of the C library that matters here is the set of
  streams that are open, and \<^verbatim>\<open>fclose\<close> takes a stream out of it.
\<close>

type_synonym FILE = nat

record snd_input_stdio =
  close :: c_int
  fp :: FILE

definition fclose :: "FILE \<Rightarrow> FILE set \<Rightarrow> FILE set" where
  "fclose f streams = streams - {f}"

text \<open>
  \<^verbatim>\<open>snd_input_stdio_close\<close> is
  \<^verbatim>\<open>stdio = input->private_data; if (close) fclose(stdio->fp); free(stdio); return 0;\<close>.
  The function has one parameter, \<^verbatim>\<open>input\<close>, and one local variable, \<^verbatim>\<open>stdio\<close>. No
  variable \<^verbatim>\<open>close\<close> is in scope, so the identifier in the condition is the function
  \<^verbatim>\<open>close\<close> that \<^verbatim>\<open>unistd.h\<close> declares (the file includes it), not the field
  \<^verbatim>\<open>stdio->close\<close>. A function designator in a condition is the address of the function,
  compared with the null pointer.
\<close>

datatype fn_ptr = Null_fn | Fn string

definition unistd_close :: fn_ptr where
  "unistd_close = Fn ''close''"

definition snd_input_stdio_close :: "snd_input_stdio \<Rightarrow> FILE set \<Rightarrow> c_int \<times> FILE set" where
  "snd_input_stdio_close stdio streams =
     (let streams1 = (if unistd_close \<noteq> Null_fn then fclose (fp stdio) streams else streams)
      in (0, streams1))"

subsection \<open>The handle and its constructors\<close>

text \<open>
  \<^verbatim>\<open>struct _snd_input { snd_input_type_t type; snd_input_ops_t *ops; void *private_data; }\<close>.
  The field \<^verbatim>\<open>ops\<close> points to one of the two static tables, so its value is the name of
  the table; \<^verbatim>\<open>private_data\<close> points to the state of one of the two backends. The backend
  functions above take the backend state that \<^verbatim>\<open>input->private_data\<close> points to; the cast
  is done in the dispatching function, and a table called on the other backend's state
  is an error.
\<close>

datatype snd_input_type = SND_INPUT_STDIO | SND_INPUT_BUFFER

datatype snd_input_ops = snd_input_stdio_ops | snd_input_buffer_ops

datatype private_data_t = Stdio_data snd_input_stdio | Buffer_data snd_input_buffer

record snd_input =
  type :: snd_input_type
  ops :: snd_input_ops
  private_data :: private_data_t

text \<open>
  \<^verbatim>\<open>snd_input_close\<close> is \<^verbatim>\<open>err = input->ops->close(input); free(input); return err;\<close>.
  The result is the status and the set of open streams.
\<close>

definition snd_input_close :: "snd_input \<Rightarrow> FILE set \<Rightarrow> error + (c_int \<times> FILE set)" where
  "snd_input_close input streams =
     (case ops input of
        snd_input_stdio_ops \<Rightarrow>
          (case private_data input of
             Stdio_data stdio \<Rightarrow> Inr (snd_input_stdio_close stdio streams)
           | Buffer_data buffer \<Rightarrow> Inl Bad_cast)
      | snd_input_buffer_ops \<Rightarrow>
          (case private_data input of
             Buffer_data buffer \<Rightarrow> Inr (snd_input_buffer_close buffer, streams)
           | Stdio_data stdio \<Rightarrow> Inl Bad_cast))"

text \<open>
  \<^verbatim>\<open>snd_input_stdio_attach(inputp, fp, close)\<close>. The pointer \<^verbatim>\<open>fp\<close> may be null
  (\<open>None\<close>); \<open>inputp\<close> says whether the out-parameter is non-null, and the two booleans
  after it whether the two calls of \<^verbatim>\<open>calloc\<close> succeed. \<open>Inr\<close> is the return of 0 with the
  handle stored through \<^verbatim>\<open>inputp\<close>.
\<close>

definition snd_input_stdio_attach ::
  "bool \<Rightarrow> bool \<Rightarrow> bool \<Rightarrow> FILE option \<Rightarrow> c_int \<Rightarrow> error + snd_input" where
  "snd_input_stdio_attach inputp calloc_stdio calloc_input fp_arg close_arg =
     (case fp_arg of
        None \<Rightarrow> Inl Assertion_failed
      | Some f \<Rightarrow>
          if \<not> inputp then Inl Assertion_failed
          else if \<not> calloc_stdio then Inl ENOMEM
          else if \<not> calloc_input then Inl ENOMEM
          else Inr \<lparr>type = SND_INPUT_STDIO, ops = snd_input_stdio_ops,
                    private_data = Stdio_data \<lparr>close = close_arg, fp = f\<rparr>\<rparr>)"

text \<open>
  \<^verbatim>\<open>strlen\<close> on the caller's array \<open>src\<close>: the number of bytes before the first zero byte;
  an array with no zero byte is read past its end.
\<close>

definition strlen :: "byte list \<Rightarrow> error + size_t" where
  "strlen src =
     (if 0 \<in> set src then Inr (of_nat (length (takeWhile (\<lambda>b. b \<noteq> 0) src)))
      else Inl Out_of_bounds)"

text \<open>
  \<^verbatim>\<open>snd_input_buffer_open(inputp, buf, size)\<close> with \<^verbatim>\<open>int size\<close>. \<open>src\<close> is the array that
  \<^verbatim>\<open>buf\<close> points to. The booleans say whether \<^verbatim>\<open>inputp\<close> is non-null and whether the two
  calls of \<^verbatim>\<open>calloc\<close> and the call of \<^verbatim>\<open>malloc\<close> succeed; \<open>indet\<close> gives the indeterminate
  bytes of the fresh array. The steps, in the order of the source:
  \<^item> \<^verbatim>\<open>if (size < 0) size = strlen(buf);\<close> converts a \<^verbatim>\<open>size_t\<close> to \<^verbatim>\<open>int\<close> (the low 32 bits);
  \<^item> \<^verbatim>\<open>malloc(size+1)\<close> adds in \<^verbatim>\<open>int\<close> (an overflow at the largest \<^verbatim>\<open>int\<close>) and converts
    the sum to \<^verbatim>\<open>size_t\<close> with sign extension;
  \<^item> \<^verbatim>\<open>memcpy(buffer->buf, buf, size)\<close> converts \<^verbatim>\<open>size\<close> to \<^verbatim>\<open>size_t\<close> and needs that many
    bytes in both arrays;
  \<^item> \<^verbatim>\<open>buffer->buf[size] = 0\<close> indexes with the \<^verbatim>\<open>int\<close>;
  \<^item> \<^verbatim>\<open>buffer->ptr = buffer->buf; buffer->size = size;\<close>
\<close>

definition snd_input_buffer_open ::
  "bool \<Rightarrow> bool \<Rightarrow> bool \<Rightarrow> bool \<Rightarrow> (nat \<Rightarrow> byte) \<Rightarrow> byte list \<Rightarrow> c_int
     \<Rightarrow> error + snd_input" where
  "snd_input_buffer_open inputp calloc_buffer calloc_input malloc_buf indet src size_arg =
     (if \<not> inputp then Inl Assertion_failed
      else if \<not> calloc_buffer then Inl ENOMEM
      else if \<not> calloc_input then Inl ENOMEM
      else
        case (if sint size_arg < 0
              then (case strlen src of Inl e \<Rightarrow> Inl e | Inr l \<Rightarrow> Inr (ucast l :: c_int))
              else Inr size_arg) of
          Inl e \<Rightarrow> Inl e
        | Inr sz \<Rightarrow>
            if sz = 0x7FFFFFFF then Inl Signed_overflow
            else
              let alloc = unat (scast (sz + 1) :: size_t) in
              if \<not> malloc_buf then Inl ENOMEM
              else
                let fresh = map indet [0..<alloc];
                    n = unat (scast sz :: size_t)
                in if length src < n \<or> alloc < n then Inl Out_of_bounds
                   else
                     let copied = take n src @ drop n fresh in
                     if \<not> (0 \<le> sint sz \<and> nat (sint sz) < alloc) then Inl Out_of_bounds
                     else
                       Inr \<lparr>type = SND_INPUT_BUFFER, ops = snd_input_buffer_ops,
                            private_data = Buffer_data
                              \<lparr>buf = copied[nat (sint sz) := 0], ptr = 0,
                               size_b = scast sz\<rparr>\<rparr>)"

subsection \<open>Vocabulary of the properties\<close>

text \<open>
  The definitions below are not code of the source: they name what the properties speak
  about. \<open>store_bytes m a bs\<close> is the memory \<open>m\<close> with the bytes \<open>bs\<close> at the addresses
  from \<open>a\<close> on and every other address as in \<open>m\<close>.
\<close>

definition store_bytes :: "mem \<Rightarrow> addr \<Rightarrow> byte list \<Rightarrow> mem" where
  "store_bytes m a bs = (\<lambda>x. if a \<le> x \<and> x < a + length bs then bs ! (x - a) else m x)"

text \<open>The bytes of a backend that have not been read: \<^verbatim>\<open>size\<close> bytes from the cursor on.\<close>

definition unread :: "snd_input_buffer \<Rightarrow> byte list" where
  "unread buffer = take (unat (size_b buffer)) (drop (ptr buffer) (buf buffer))"

text \<open>
  The line read as the specification words it: bytes are taken from the unread ones
  until \<open>size - 1\<close> of them are taken, none is left, or a newline has been taken (the
  newline included).
\<close>

fun upto_newline :: "byte list \<Rightarrow> byte list" where
  "upto_newline [] = []"
| "upto_newline (c # cs) = (if c = 10 then [c] else c # upto_newline cs)"

definition read_line_spec :: "nat \<Rightarrow> byte list \<Rightarrow> byte list" where
  "read_line_spec cap bytes = upto_newline (take (cap - 1) bytes)"

text \<open>
  \<open>stops_at_first cap bytes chunk\<close>: \<open>chunk\<close> is an initial segment of \<open>bytes\<close> of at most
  \<open>cap - 1\<close> bytes, with no newline before its last byte, that ends with a newline, has
  \<open>cap - 1\<close> bytes, or is all of \<open>bytes\<close>.
\<close>

definition stops_at_first :: "nat \<Rightarrow> byte list \<Rightarrow> byte list \<Rightarrow> bool" where
  "stops_at_first cap bytes chunk \<longleftrightarrow>
     chunk = take (length chunk) bytes \<and> length chunk \<le> cap - 1 \<and>
     10 \<notin> set (butlast chunk) \<and>
     ((chunk \<noteq> [] \<and> last chunk = 10) \<or> length chunk = cap - 1 \<or> chunk = bytes)"

text \<open>
  The invariant of a buffer backend over an input of \<open>orig\<close> bytes: the array has
  \<open>orig + 1\<close> bytes, the remaining count is at most the allocated size less one, the
  cursor is at most \<open>orig\<close> bytes into the array, and cursor and remaining count add up
  to \<open>orig\<close>.
\<close>

definition buffer_inv :: "nat \<Rightarrow> snd_input_buffer \<Rightarrow> bool" where
  "buffer_inv orig buffer \<longleftrightarrow>
     length (buf buffer) = orig + 1 \<and>
     unat (size_b buffer) \<le> length (buf buffer) - 1 \<and>
     ptr buffer \<le> orig \<and>
     ptr buffer + unat (size_b buffer) = orig"

text \<open>
  Sequences of calls on one buffer backend: each call is made on the state the call
  before left; a call that ends with an error ends the sequence.
\<close>

datatype buffer_call = Getc | Ungetc c_int | Gets addr size_t

fun do_call ::
  "buffer_call \<Rightarrow> snd_input_buffer \<times> mem \<Rightarrow> error + (snd_input_buffer \<times> mem)" where
  "do_call Getc (buffer, m) =
     (case snd_input_buffer_getc buffer of
        Inl e \<Rightarrow> Inl e | Inr (c, buffer1) \<Rightarrow> Inr (buffer1, m))"
| "do_call (Ungetc c) (buffer, m) =
     (case snd_input_buffer_ungetc buffer c of
        Inl e \<Rightarrow> Inl e | Inr (r, buffer1) \<Rightarrow> Inr (buffer1, m))"
| "do_call (Gets str sz) (buffer, m) =
     (case snd_input_buffer_gets buffer str sz m of
        Inl e \<Rightarrow> Inl e | Inr (r, buffer1, m1) \<Rightarrow> Inr (buffer1, m1))"

fun do_calls ::
  "buffer_call list \<Rightarrow> snd_input_buffer \<times> mem \<Rightarrow> error + (snd_input_buffer \<times> mem)" where
  "do_calls [] s = Inr s"
| "do_calls (x # xs) s = (case do_call x s of Inl e \<Rightarrow> Inl e | Inr s1 \<Rightarrow> do_calls xs s1)"


section \<open>Auxiliary lemmas\<close>

lemma unat_pred: "(x :: size_t) \<noteq> 0 \<Longrightarrow> unat (x - 1) = unat x - 1"
  by (simp add: unat_minus_one)

lemma word_pos_iff: "(0 < (x :: size_t)) = (x \<noteq> 0)"
  by (simp add: word_neq_0_conv)

lemma store_bytes_Nil: "store_bytes m a [] = m"
  by (auto simp: store_bytes_def fun_eq_iff)

lemma store_bytes_Cons: "store_bytes m a (b # bs) = store_bytes (m(a := b)) (Suc a) bs"
  by (auto simp: store_bytes_def fun_eq_iff nth_Cons')

subsection \<open>The loop of \<^verbatim>\<open>snd_input_buffer_gets\<close>\<close>

lemma gets_loop_exit:
  "sz = 1 \<or> bsize = 0 \<Longrightarrow> gets_loop buffer sz bsize str m = Inr (buffer, bsize, str, m)"
  by (subst gets_loop.simps) (auto simp: word_pos_iff)

lemma gets_loop_step:
  "sz \<noteq> 1 \<Longrightarrow> bsize \<noteq> 0 \<Longrightarrow> ptr buffer < length (buf buffer) \<Longrightarrow>
   gets_loop buffer sz bsize str m =
     (if buf buffer ! ptr buffer = 10
      then Inr (buffer\<lparr>ptr := Suc (ptr buffer)\<rparr>, bsize - 1, Suc str,
                m(str := buf buffer ! ptr buffer))
      else gets_loop (buffer\<lparr>ptr := Suc (ptr buffer)\<rparr>) (sz - 1) (bsize - 1) (Suc str)
             (m(str := buf buffer ! ptr buffer)))"
  by (subst gets_loop.simps) (simp add: Let_def word_pos_iff)

lemma gets_loop_oob:
  "sz \<noteq> 1 \<Longrightarrow> bsize \<noteq> 0 \<Longrightarrow> \<not> ptr buffer < length (buf buffer) \<Longrightarrow>
   gets_loop buffer sz bsize str m = Inl Out_of_bounds"
  by (subst gets_loop.simps) (simp add: word_pos_iff)

text \<open>
  With \<open>k\<close> bytes left in the array from the cursor on, the loop copies the line of the
  next \<open>min (size - 1) k\<close> bytes, where \<open>size - 1\<close> is the wrapping decrement.
\<close>

lemma gets_loop_eq:
  "unat bsize = k \<Longrightarrow> ptr buffer + k \<le> length (buf buffer) \<Longrightarrow>
   gets_loop buffer sz bsize str m =
     Inr (buffer\<lparr>ptr := ptr buffer
            + length (upto_newline (take (min (unat (sz - 1)) k) (drop (ptr buffer) (buf buffer))))\<rparr>,
          bsize
            - of_nat (length (upto_newline (take (min (unat (sz - 1)) k) (drop (ptr buffer) (buf buffer))))),
          str + length (upto_newline (take (min (unat (sz - 1)) k) (drop (ptr buffer) (buf buffer)))),
          store_bytes m str
            (upto_newline (take (min (unat (sz - 1)) k) (drop (ptr buffer) (buf buffer)))))"
proof (induction k arbitrary: buffer sz bsize str m)
  case 0
  then have "bsize = 0" by (simp add: unat_eq_0)
  then show ?case
    by (simp add: gets_loop_exit store_bytes_Nil)
next
  case (Suc k)
  let ?chunk = "\<lambda>cap k b. upto_newline (take (min cap k) (drop (ptr b) (buf b)))"
  show ?case
  proof (cases "sz = 1")
    case True
    then show ?thesis
      by (simp add: gets_loop_exit store_bytes_Nil)
  next
    case False
    from Suc.prems have nz: "bsize \<noteq> 0" by auto
    from Suc.prems have inb: "ptr buffer < length (buf buffer)" by simp
    from False have sz1: "sz - 1 \<noteq> 0" by simp
    define c where "c = buf buffer ! ptr buffer"
    define buffer1 where "buffer1 = buffer\<lparr>ptr := Suc (ptr buffer)\<rparr>"
    have dr: "drop (ptr buffer) (buf buffer) = c # drop (ptr buffer1) (buf buffer1)"
      using inb by (simp add: c_def buffer1_def Cons_nth_drop_Suc)
    have cap: "unat (sz - 1) = Suc (unat (sz - 1 - 1))"
    proof -
      from sz1 have "0 < unat (sz - 1)" by (simp add: unat_gt_0 word_pos_iff)
      then show ?thesis unfolding unat_pred [OF sz1] by arith
    qed
    have ch: "?chunk (unat (sz - 1)) (Suc k) buffer =
        (if c = 10 then [c] else c # ?chunk (unat (sz - 1 - 1)) k buffer1)"
      unfolding dr cap by simp
    have k1: "unat (bsize - 1) = k"
      using Suc.prems(1) nz by (simp add: unat_pred)
    have pre: "ptr buffer1 + k \<le> length (buf buffer1)"
      using Suc.prems(2) by (simp add: buffer1_def)
    note IH = Suc.IH [OF k1 pre, of "sz - 1" "Suc str" "m(str := c)"]
    have step: "gets_loop buffer sz bsize str m =
        (if c = 10 then Inr (buffer1, bsize - 1, Suc str, m(str := c))
         else gets_loop buffer1 (sz - 1) (bsize - 1) (Suc str) (m(str := c)))"
      unfolding c_def buffer1_def by (rule gets_loop_step [OF False nz inb])
    show ?thesis
    proof (cases "c = 10")
      case True
      then show ?thesis
        by (simp add: step ch buffer1_def store_bytes_Cons store_bytes_Nil fun_eq_iff)
    next
      case False
      then have "gets_loop buffer sz bsize str m =
          gets_loop buffer1 (sz - 1) (bsize - 1) (Suc str) (m(str := c))"
        by (simp add: step)
      also note IH
      finally have e: "gets_loop buffer sz bsize str m =
          Inr (buffer1\<lparr>ptr := ptr buffer1 + length (?chunk (unat (sz - 1 - 1)) k buffer1)\<rparr>,
               bsize - 1 - word_of_nat (length (?chunk (unat (sz - 1 - 1)) k buffer1)),
               Suc str + length (?chunk (unat (sz - 1 - 1)) k buffer1),
               store_bytes (m(str := c)) (Suc str) (?chunk (unat (sz - 1 - 1)) k buffer1))" .
      show ?thesis
        unfolding e ch using False by (simp add: buffer1_def store_bytes_Cons fun_eq_iff)
    qed
  qed
qed

subsection \<open>Lines\<close>

lemma length_upto_newline: "length (upto_newline xs) \<le> length xs"
  by (induction xs) auto

lemma upto_newline_Nil_iff: "upto_newline xs = [] \<longleftrightarrow> xs = []"
  by (cases xs) auto

lemma upto_newline_prefix: "upto_newline xs = take (length (upto_newline xs)) xs"
  by (induction xs) auto

lemma upto_newline_butlast: "10 \<notin> set (butlast (upto_newline xs))"
  by (induction xs) auto

lemma upto_newline_stop:
  "(upto_newline xs \<noteq> [] \<and> last (upto_newline xs) = 10) \<or> upto_newline xs = xs"
  by (induction xs) auto

lemma read_line_spec_stops: "stops_at_first cap bytes (read_line_spec cap bytes)"
proof -
  let ?t = "take (cap - 1) bytes"
  let ?c = "upto_newline ?t"
  have len: "length ?c \<le> length ?t" by (rule length_upto_newline)
  have "?c = take (length ?c) ?t" by (rule upto_newline_prefix)
  also have "\<dots> = take (length ?c) bytes" using len by (simp add: min_absorb1)
  finally have p: "?c = take (length ?c) bytes" .
  have l: "length ?c \<le> cap - 1" using len by simp
  have s: "(?c \<noteq> [] \<and> last ?c = 10) \<or> length ?c = cap - 1 \<or> ?c = bytes"
  proof (cases "?c = ?t")
    case True
    show ?thesis
    proof (cases "cap - 1 \<le> length bytes")
      case True
      with \<open>?c = ?t\<close> have "length ?c = cap - 1" by simp
      then show ?thesis by simp
    next
      case False
      with \<open>?c = ?t\<close> have "?c = bytes" by simp
      then show ?thesis by simp
    qed
  next
    case False
    with upto_newline_stop [of ?t] show ?thesis by simp
  qed
  show ?thesis
    unfolding stops_at_first_def read_line_spec_def
    using p l s upto_newline_butlast [of ?t] by blast
qed

lemma stops_at_first_shorter:
  assumes c1: "stops_at_first cap bytes c1" and c2: "stops_at_first cap bytes c2"
  shows "\<not> length c1 < length c2"
proof
  assume less: "length c1 < length c2"
  from c1 have p1: "c1 = take (length c1) bytes" by (simp add: stops_at_first_def)
  from c2 have p2: "c2 = take (length c2) bytes" by (simp add: stops_at_first_def)
  from c2 have l2: "length c2 \<le> cap - 1" by (simp add: stops_at_first_def)
  have "length (take (length c2) bytes) \<le> length bytes" by simp
  with p2 have lb: "length c2 \<le> length bytes" by simp
  from c1 consider "c1 \<noteq> [] \<and> last c1 = 10" | "length c1 = cap - 1" | "c1 = bytes"
    unfolding stops_at_first_def by blast
  then show False
  proof cases
    case 1
    then have pos: "0 < length c1" by simp
    have "last c1 = c1 ! (length c1 - 1)" using 1 by (metis last_conv_nth)
    also have "\<dots> = bytes ! (length c1 - 1)" using p1 pos by (metis diff_less nth_take zero_less_one)
    also have "\<dots> = c2 ! (length c1 - 1)" using p2 less pos
      by (metis diff_less less_trans nth_take zero_less_one)
    also have "\<dots> = butlast c2 ! (length c1 - 1)"
    proof -
      have "length c1 - 1 < length (butlast c2)"
        unfolding length_butlast using less pos by arith
      then show ?thesis by (rule nth_butlast [symmetric])
    qed
    finally have "10 = butlast c2 ! (length c1 - 1)" using 1 by simp
    moreover have "length c1 - 1 < length (butlast c2)"
      unfolding length_butlast using less pos by arith
    ultimately have "10 \<in> set (butlast c2)" by (metis nth_mem)
    with c2 show False by (simp add: stops_at_first_def)
  next
    case 2
    with less l2 show False by simp
  next
    case 3
    with less lb show False by simp
  qed
qed

lemma stops_at_first_unique:
  assumes "stops_at_first cap bytes c1" and "stops_at_first cap bytes c2"
  shows "c1 = c2"
proof -
  from stops_at_first_shorter [OF assms] stops_at_first_shorter [OF assms(2) assms(1)]
  have "length c1 = length c2" by simp
  with assms show ?thesis by (metis stops_at_first_def)
qed

lemma of_nat_diff_eq_iff:
  assumes "n \<le> unat (x :: size_t)"
  shows "x - of_nat n = x \<longleftrightarrow> n = 0"
proof -
  have "unat x < 2 ^ 64" using unsigned_less [of x, where ?'a = nat] by simp
  with assms have "n < 2 ^ 64" by simp
  then have "unat (of_nat n :: size_t) = n" by (simp add: unat_of_nat)
  then have "(of_nat n :: size_t) = 0 \<longleftrightarrow> n = 0" by (metis unat_eq_0)
  then show ?thesis by simp
qed

lemma store_bytes_snoc: "(store_bytes m a bs)(a + length bs := b) = store_bytes m a (bs @ [b])"
  by (auto simp: store_bytes_def fun_eq_iff nth_append)

lemma gets_eq:
  assumes "ptr buffer + unat (size_b buffer) \<le> length (buf buffer)"
  shows "snd_input_buffer_gets buffer str sz m =
     (if upto_newline (take (unat (sz - 1)) (unread buffer)) = [] then Inr (None, buffer, m)
      else Inr (Some (str + length (upto_newline (take (unat (sz - 1)) (unread buffer)))),
                buffer\<lparr>ptr := ptr buffer + length (upto_newline (take (unat (sz - 1)) (unread buffer))),
                       size_b := size_b buffer - of_nat (length (upto_newline (take (unat (sz - 1)) (unread buffer))))\<rparr>,
                store_bytes m str (upto_newline (take (unat (sz - 1)) (unread buffer)) @ [0])))"
proof -
  define chunk where "chunk = upto_newline (take (unat (sz - 1)) (unread buffer))"
  have ch: "upto_newline (take (min (unat (sz - 1)) (unat (size_b buffer))) (drop (ptr buffer) (buf buffer))) = chunk"
    by (simp add: chunk_def unread_def min.commute)
  have "length chunk \<le> length (take (unat (sz - 1)) (unread buffer))"
    unfolding chunk_def by (rule length_upto_newline)
  then have le: "length chunk \<le> unat (size_b buffer)"
    by (simp add: unread_def)
  have z: "size_b buffer - of_nat (length chunk) = size_b buffer \<longleftrightarrow> chunk = []"
    using of_nat_diff_eq_iff [OF le] by simp
  show ?thesis
    unfolding snd_input_buffer_gets_def gets_loop_eq [OF refl assms] ch chunk_def [symmetric]
    using z by (auto simp: store_bytes_snoc store_bytes_Nil)
qed

text \<open>
  A result that is not \<^verbatim>\<open>NULL\<close> is the address after the last byte copied, which is never
  the destination itself.
\<close>

lemma gets_result_pointer:
  assumes "ptr buffer + unat (size_b buffer) \<le> length (buf buffer)"
    and "snd_input_buffer_gets buffer str sz m = Inr (Some p, buffer', m')"
  shows "p = str + length (upto_newline (take (unat (sz - 1)) (unread buffer))) \<and> p \<noteq> str"
  using assms(2) unfolding gets_eq [OF assms(1)] by (auto split: if_splits)

text \<open>Without the bound on the state: the loop never raises \<^verbatim>\<open>bsize\<close> nor changes \<^verbatim>\<open>size\<close>.\<close>

lemma gets_loop_bounds:
  "unat bsize = k \<Longrightarrow> gets_loop buffer sz bsize str m = Inr (b', bs', str', m') \<Longrightarrow>
   unat bs' \<le> k \<and> size_b b' = size_b buffer"
proof (induction k arbitrary: buffer sz bsize str m)
  case 0
  then have "bsize = 0" by (simp add: unat_eq_0)
  with 0 show ?case by (simp add: gets_loop_exit)
next
  case (Suc k)
  show ?case
  proof (cases "sz = 1")
    case True
    with Suc.prems show ?thesis by (simp add: gets_loop_exit)
  next
    case False
    from Suc.prems have nz: "bsize \<noteq> 0" by auto
    then have k1: "unat (bsize - 1) = k" using Suc.prems(1) by (simp add: unat_pred)
    show ?thesis
    proof (cases "ptr buffer < length (buf buffer)")
      case inb: True
      show ?thesis
      proof (cases "buf buffer ! ptr buffer = 10")
        case True
        with Suc.prems(2) k1 show ?thesis
          by (auto simp: gets_loop_step [OF False nz inb])
      next
        case False
        with Suc.prems(2) Suc.IH [OF k1] show ?thesis
          by (fastforce simp: gets_loop_step [OF \<open>sz \<noteq> 1\<close> nz inb])
      qed
    next
      case False
      with Suc.prems(2) show ?thesis
        by (simp add: gets_loop_oob [OF \<open>sz \<noteq> 1\<close> nz])
    qed
  qed
qed

subsection \<open>Bytes as \<^verbatim>\<open>int\<close>\<close>

lemma ucast_byte_int_byte: "(ucast (ucast (b :: byte) :: c_int) :: byte) = b"
  by (rule ucast_up_ucast_id) (simp add: is_up)

lemma uint_ucast_byte: "uint (ucast (b :: byte) :: c_int) = uint b"
  by (rule uint_up_ucast) (simp add: is_up)

lemma uint_byte_less: "uint (b :: byte) < 256"
  using uint_bounded [of b] by simp

lemma ucast_byte_not_EOF: "(ucast (b :: byte) :: c_int) \<noteq> EOF"
proof
  assume "(ucast b :: c_int) = EOF"
  moreover have "(- 1 :: c_int) = 4294967295" by simp
  ultimately have "uint (ucast b :: c_int) = uint (4294967295 :: c_int)" by (simp only: EOF_def)
  with uint_ucast_byte [of b] uint_byte_less [of b] show False by simp
qed


subsection \<open>Closing a stdio handle\<close>

text \<open>Whatever the flag given to \<^verbatim>\<open>snd_input_stdio_attach\<close>, closing the handle closes the stream.\<close>

lemma stdio_close_always_closes:
  "snd_input_stdio_attach inputp c1 c2 fp_arg flag = Inr input \<Longrightarrow>
   \<exists>f. fp_arg = Some f \<and> snd_input_close input streams = Inr (0, streams - {f})"
  by (auto simp: snd_input_stdio_attach_def snd_input_close_def snd_input_stdio_close_def
      unistd_close_def fclose_def split: option.splits if_splits)

subsection \<open>The state that \<^verbatim>\<open>snd_input_buffer_open\<close> builds\<close>

lemma scast_nonneg: "0 \<le> sint (sz :: c_int) \<Longrightarrow> (scast sz :: size_t) = of_nat (nat (sint sz))"
  unfolding scast_eq by (rule word_of_int_nat)

lemma sint_c_int_less: "sint (sz :: c_int) < 2 ^ 31"
  using sint_lt [of sz] by simp

lemma unat_scast_nonneg:
  assumes "0 \<le> sint (sz :: c_int)"
  shows "unat (scast sz :: size_t) = nat (sint sz)"
proof -
  have "nat (sint sz) < 2 ^ 31" using sint_c_int_less [of sz] assms by simp
  then have "nat (sint sz) < 2 ^ 64" by (rule less_trans) simp
  then show ?thesis by (simp add: scast_nonneg [OF assms] unat_of_nat)
qed

lemma sint_succ:
  assumes "0 \<le> sint (sz :: c_int)" and "sz \<noteq> 0x7FFFFFFF"
  shows "sint (sz + 1) = sint sz + 1"
proof -
  have "sint sz \<noteq> 2 ^ 31 - 1"
  proof
    assume "sint sz = 2 ^ 31 - 1"
    then have "sint sz = sint (0x7FFFFFFF :: c_int)" by simp
    then have "sz = 0x7FFFFFFF" by (rule signed_word_eqI)
    with assms(2) show False by simp
  qed
  with sint_c_int_less [of sz] have "sint sz + 1 < 2 ^ 31" by simp
  moreover from assms(1) have "- (2 ^ 31) \<le> sint sz + 1" by simp
  ultimately have "signed_take_bit 31 (sint sz + 1) = sint sz + 1"
    by (intro signed_take_bit_int_eq_self)
  then show ?thesis by (simp add: sint_word_add)
qed

lemma open_result:
  assumes "snd_input_buffer_open inputp cb ci mb indet src size_arg = Inr input"
  shows "\<exists>n. n < 2 ^ 31 - 1 \<and> n \<le> length src \<and>
           (0 \<le> sint size_arg \<longrightarrow> n = nat (sint size_arg)) \<and>
           input = \<lparr>type = SND_INPUT_BUFFER, ops = snd_input_buffer_ops,
                    private_data = Buffer_data \<lparr>buf = take n src @ [0], ptr = 0, size_b = of_nat n\<rparr>\<rparr>"
proof -
  define r where "r = (if sint size_arg < 0
              then (case strlen src of Inl e \<Rightarrow> Inl e | Inr l \<Rightarrow> Inr (ucast l :: c_int))
              else Inr size_arg)"
  note open_def = snd_input_buffer_open_def [of inputp cb ci mb indet src size_arg,
      folded r_def]
  from assms have flags: "inputp" "cb" "ci"
    unfolding open_def by (simp_all split: if_splits)
  from assms flags obtain sz where r: "r = Inr sz"
    unfolding open_def by (cases r) simp_all
  from assms flags have nmax: "sz \<noteq> 0x7FFFFFFF"
    unfolding open_def r by (simp split: if_splits)
  from assms flags nmax have mb: "mb"
    unfolding open_def r by (simp add: Let_def split: if_splits)
  define n where "n = unat (scast sz :: size_t)"
  define alloc where "alloc = unat (scast (sz + 1) :: size_t)"
  from assms flags nmax mb have bounds: "\<not> (length src < n \<or> alloc < n)"
    unfolding open_def r by (simp add: Let_def n_def [symmetric] alloc_def [symmetric] split: if_splits)
  from assms flags nmax mb bounds have idx: "0 \<le> sint sz \<and> nat (sint sz) < alloc"
    unfolding open_def r by (simp add: Let_def n_def [symmetric] alloc_def [symmetric] split: if_splits)
  from assms flags nmax mb bounds idx
  have input: "input = \<lparr>type = SND_INPUT_BUFFER, ops = snd_input_buffer_ops,
      private_data = Buffer_data
        \<lparr>buf = (take n src @ drop n (map indet [0..<alloc]))[nat (sint sz) := 0], ptr = 0,
         size_b = scast sz\<rparr>\<rparr>"
    unfolding open_def r by (simp add: Let_def n_def [symmetric] alloc_def [symmetric])
  from idx have nonneg: "0 \<le> sint sz" by simp
  have n_eq: "n = nat (sint sz)"
    unfolding n_def by (rule unat_scast_nonneg [OF nonneg])
  have "0 \<le> sint (sz + 1)" using sint_succ [OF nonneg nmax] nonneg by simp
  then have "unat (scast (sz + 1) :: size_t) = nat (sint (sz + 1))"
    by (rule unat_scast_nonneg)
  then have alloc: "alloc = Suc n"
    using sint_succ [OF nonneg nmax] nonneg by (simp add: n_eq alloc_def nat_add_distrib)
  from bounds have src: "n \<le> length src" by simp
  have arr: "(take n src @ drop n (map indet [0..<Suc n]))[n := 0] = take n src @ [0]"
    using src by (simp add: list_update_append drop_map)
  have sc: "(scast sz :: size_t) = of_nat n"
    unfolding n_eq by (rule scast_nonneg [OF nonneg])
  have input': "input = \<lparr>type = SND_INPUT_BUFFER, ops = snd_input_buffer_ops,
      private_data = Buffer_data \<lparr>buf = take n src @ [0], ptr = 0, size_b = of_nat n\<rparr>\<rparr>"
    unfolding input alloc n_eq [symmetric] arr sc ..
  have small: "n < 2 ^ 31 - 1"
    using sint_succ [OF nonneg nmax] sint_c_int_less [of "sz + 1"] nonneg by (simp add: n_eq)
  have "0 \<le> sint size_arg \<longrightarrow> sz = size_arg"
    using r by (auto simp: r_def)
  then have imp: "0 \<le> sint size_arg \<longrightarrow> n = nat (sint size_arg)"
    by (auto simp: n_eq)
  show ?thesis
    by (rule exI [of _ n]) (intro conjI small src imp input')
qed

subsection \<open>Reading character by character\<close>

lemma getc_eq:
  "size_b b \<noteq> 0 \<Longrightarrow> ptr b < length (buf b) \<Longrightarrow>
   snd_input_buffer_getc b =
     Inr (ucast (buf b ! ptr b), b\<lparr>size_b := size_b b - 1, ptr := Suc (ptr b)\<rparr>)"
  by (simp add: snd_input_buffer_getc_def)

lemma getc_EOF: "size_b b = 0 \<Longrightarrow> snd_input_buffer_getc b = Inr (EOF, b)"
  by (simp add: snd_input_buffer_getc_def)










subsection \<open>Each call keeps the invariant\<close>

lemma unat_sub_of_nat:
  assumes "n \<le> unat (x :: size_t)"
  shows "unat (x - of_nat n) = unat x - n"
proof -
  have "unat x < 2 ^ 64" using unsigned_less [of x, where ?'a = nat] by simp
  with assms have "n < 2 ^ 64" by simp
  then have u: "unat (of_nat n :: size_t) = n" by (simp add: unat_of_nat)
  with assms have "of_nat n \<le> x" by (simp add: word_le_nat_alt)
  then show ?thesis by (simp add: unat_sub u)
qed

lemma getc_inv:
  assumes "buffer_inv orig b" and "snd_input_buffer_getc b = Inr (c, b')"
  shows "buffer_inv orig b'"
proof (cases "size_b b = 0")
  case True
  with assms show ?thesis by (simp add: getc_EOF)
next
  case False
  then have pos: "0 < unat (size_b b)" by (simp add: unat_gt_0 word_pos_iff)
  with assms(1) have inb: "ptr b < length (buf b)" by (simp add: buffer_inv_def)
  from assms(2) have "b' = b\<lparr>size_b := size_b b - 1, ptr := Suc (ptr b)\<rparr>"
    by (simp add: getc_eq [OF False inb])
  with assms(1) pos show ?thesis
    by (auto simp: buffer_inv_def unat_pred [OF False])
qed

lemma ungetc_inv:
  assumes "orig < 2 ^ 64" and "buffer_inv orig b"
    and "snd_input_buffer_ungetc b c = Inr (r, b')"
  shows "buffer_inv orig b'"
proof (cases "ptr b = 0")
  case True
  with assms show ?thesis by (simp add: snd_input_buffer_ungetc_def)
next
  case False
  with assms(3) have b': "b' = b\<lparr>ptr := ptr b - 1, size_b := size_b b + 1\<rparr>"
    by (simp add: snd_input_buffer_ungetc_def Let_def split: if_splits)
  from assms(1,2) False have "unat (size_b b) + 1 < 2 ^ 64"
    by (simp add: buffer_inv_def)
  then have "unat (size_b b + 1) = unat (size_b b) + 1"
    by (simp add: unat_word_ariths)
  with assms(2) False show ?thesis
    by (auto simp: buffer_inv_def b')
qed

lemma gets_inv:
  assumes "buffer_inv orig b" and "snd_input_buffer_gets b str sz m = Inr (r, b', m')"
  shows "buffer_inv orig b'"
proof -
  define chunk where "chunk = upto_newline (take (unat (sz - 1)) (unread b))"
  from assms(1) have inb: "ptr b + unat (size_b b) \<le> length (buf b)"
    by (simp add: buffer_inv_def)
  have "length chunk \<le> length (take (unat (sz - 1)) (unread b))"
    unfolding chunk_def by (rule length_upto_newline)
  then have le: "length chunk \<le> unat (size_b b)"
    by (simp add: unread_def)
  from assms(2) have "b' = b \<or>
      b' = b\<lparr>ptr := ptr b + length chunk, size_b := size_b b - of_nat (length chunk)\<rparr>"
    unfolding gets_eq [OF inb] chunk_def [symmetric] by (simp split: if_splits)
  then show ?thesis
  proof
    assume "b' = b"
    with assms(1) show ?thesis by simp
  next
    assume "b' = b\<lparr>ptr := ptr b + length chunk, size_b := size_b b - of_nat (length chunk)\<rparr>"
    with assms(1) le show ?thesis
      by (auto simp: buffer_inv_def unat_sub_of_nat [OF le])
  qed
qed

lemma do_call_inv:
  assumes "orig < 2 ^ 64" and "buffer_inv orig b" and "do_call x (b, m) = Inr (b', m')"
  shows "buffer_inv orig b'"
proof (cases x)
  case Getc
  with assms(3) obtain c where "snd_input_buffer_getc b = Inr (c, b')"
    by (auto split: sum.splits)
  with assms(2) show ?thesis by (rule getc_inv)
next
  case (Ungetc c)
  with assms(3) obtain r where "snd_input_buffer_ungetc b c = Inr (r, b')"
    by (auto split: sum.splits)
  with assms(1,2) show ?thesis by (rule ungetc_inv)
next
  case (Gets str sz)
  with assms(3) obtain r where "snd_input_buffer_gets b str sz m = Inr (r, b', m')"
    by (auto split: sum.splits)
  with assms(2) show ?thesis by (rule gets_inv)
qed

lemma do_calls_inv:
  "orig < 2 ^ 64 \<Longrightarrow> buffer_inv orig b \<Longrightarrow> do_calls cs (b, m) = Inr (b', m') \<Longrightarrow>
   buffer_inv orig b'"
proof (induction cs arbitrary: b m)
  case Nil
  then show ?case by simp
next
  case (Cons x cs)
  from Cons.prems(3) obtain b1 m1 where 1: "do_call x (b, m) = Inr (b1, m1)"
    and 2: "do_calls cs (b1, m1) = Inr (b', m')"
    by (auto split: sum.splits)
  from do_call_inv [OF Cons.prems(1,2) 1] have "buffer_inv orig b1" .
  from Cons.IH [OF Cons.prems(1) this 2] show ?case .
qed

section \<open>Properties\<close>

text \<open>
  C8: for every buffer backend, also one over an empty buffer, and every character,
  \<^verbatim>\<open>snd_input_buffer_ungetc\<close> called while the cursor is at the start of the owned array
  returns \<^verbatim>\<open>EOF\<close> and leaves the cursor, the remaining count and the array as they were.
\<close>

theorem ungetc_at_start:
  assumes "ptr buffer = 0"
  shows "snd_input_buffer_ungetc buffer c = Inr (EOF, buffer)"
  using assms by (simp add: snd_input_buffer_ungetc_def)

theorem ungetc_at_start_witness:
  "ptr \<lparr>buf = [0], ptr = 0, size_b = 0\<rparr> = 0 \<and>
   snd_input_buffer_ungetc \<lparr>buf = [0], ptr = 0, size_b = 0\<rparr> 98
     = Inr (EOF, \<lparr>buf = [0], ptr = 0, size_b = 0\<rparr>)"
  using ungetc_at_start [of "\<lparr>buf = [0], ptr = 0, size_b = 0\<rparr>" 98] by simp

text \<open>
  C5: for a backend whose unread bytes lie inside its array and a capacity \<open>size\<close> of at
  least 2, \<^verbatim>\<open>snd_input_buffer_gets\<close> copies the line that the specification describes:
  the unread bytes up to the first of a newline (included), \<open>size - 1\<close> bytes, or the end
  of the unread bytes. With no byte copied the result is \<^verbatim>\<open>NULL\<close> and nothing changes;
  otherwise the destination holds the copied bytes followed by a zero byte, the cursor
  has advanced and the remaining count has dropped by the number of bytes copied.
\<close>

theorem gets_reads_line:
  assumes "ptr buffer + unat (size_b buffer) \<le> length (buf buffer)" and "2 \<le> sz"
  shows "(let chunk = read_line_spec (unat sz) (unread buffer) in
          snd_input_buffer_gets buffer str sz m =
            (if chunk = [] then Inr (None, buffer, m)
             else Inr (Some (str + length chunk),
                       buffer\<lparr>ptr := ptr buffer + length chunk,
                              size_b := size_b buffer - of_nat (length chunk)\<rparr>,
                       store_bytes m str (chunk @ [0]))) \<and>
          stops_at_first (unat sz) (unread buffer) chunk)"
proof -
  from assms(2) have "sz \<noteq> 0" by auto
  then have "unat (sz - 1) = unat sz - 1" by (rule unat_pred)
  then have "upto_newline (take (unat (sz - 1)) (unread buffer))
      = read_line_spec (unat sz) (unread buffer)"
    by (simp add: read_line_spec_def)
  with gets_eq [OF assms(1), of str sz m] read_line_spec_stops [of "unat sz" "unread buffer"]
  show ?thesis by (simp add: Let_def)
qed

theorem gets_reads_line_witness:
  "ptr \<lparr>buf = [97, 10, 98, 0], ptr = 0, size_b = 3\<rparr>
     + unat (size_b \<lparr>buf = [97, 10, 98, 0], ptr = 0, size_b = 3\<rparr>)
     \<le> length (buf \<lparr>buf = [97, 10, 98, 0], ptr = 0, size_b = 3\<rparr>) \<and>
   (2 :: size_t) \<le> 8 \<and>
   snd_input_buffer_gets \<lparr>buf = [97, 10, 98, 0], ptr = 0, size_b = 3\<rparr> 100 8 (\<lambda>_. 255)
     = Inr (Some 102, \<lparr>buf = [97, 10, 98, 0], ptr = 2, size_b = 1\<rparr>,
            store_bytes (\<lambda>_. 255) 100 [97, 10, 0])"
  using gets_reads_line [of "\<lparr>buf = [97, 10, 98, 0], ptr = 0, size_b = 3\<rparr>" 8 100 "\<lambda>_. 255"]
  by (simp add: read_line_spec_def unread_def)

text \<open>
  C10: \<^verbatim>\<open>snd_input_buffer_gets\<close> returns \<^verbatim>\<open>NULL\<close> exactly when the remaining count is 0 at
  entry or the capacity \<open>size\<close> is 1, and then the backend and the destination are as
  before the call. So with a capacity of 1 the result is \<^verbatim>\<open>NULL\<close> although unread bytes
  remain. A capacity of 0 is not among these cases: the decrement wraps.
\<close>

theorem gets_null_iff:
  "snd_input_buffer_gets buffer str sz m = Inr (None, buffer', m') \<longleftrightarrow>
     (size_b buffer = 0 \<or> sz = 1) \<and> buffer' = buffer \<and> m' = m"
proof (cases "sz = 1 \<or> size_b buffer = 0")
  case True
  then show ?thesis
    by (auto simp: snd_input_buffer_gets_def gets_loop_exit)
next
  case False
  then have sz: "sz \<noteq> 1" and nz: "size_b buffer \<noteq> 0" by auto
  have "snd_input_buffer_gets buffer str sz m \<noteq> Inr (None, buffer', m')"
  proof (cases "gets_loop buffer sz (size_b buffer) str m")
    case (Inl e)
    then show ?thesis by (simp add: snd_input_buffer_gets_def)
  next
    case (Inr r)
    obtain b1 bs1 str1 m1 where r: "r = (b1, bs1, str1, m1)" by (cases r)
    have inb: "ptr buffer < length (buf buffer)"
      using Inr gets_loop_oob [OF sz nz, of buffer str m] by auto
    have k1: "unat (size_b buffer - 1) = unat (size_b buffer) - 1"
      using nz by (rule unat_pred)
    have pos: "0 < unat (size_b buffer)" using nz by (simp add: unat_gt_0 word_pos_iff)
    have "unat bs1 < unat (size_b buffer) \<and> size_b b1 = size_b buffer"
    proof (cases "buf buffer ! ptr buffer = 10")
      case True
      with Inr r k1 pos show ?thesis
        by (auto simp: gets_loop_step [OF sz nz inb])
    next
      case False
      with Inr r have "gets_loop (buffer\<lparr>ptr := Suc (ptr buffer)\<rparr>) (sz - 1) (size_b buffer - 1)
          (Suc str) (m(str := buf buffer ! ptr buffer)) = Inr (b1, bs1, str1, m1)"
        by (simp add: gets_loop_step [OF sz nz inb])
      from gets_loop_bounds [OF refl this] have "unat bs1 \<le> unat (size_b buffer - 1)"
        and "size_b b1 = size_b buffer" by simp_all
      with k1 pos show ?thesis by simp
    qed
    then have "bs1 \<noteq> size_b b1" by auto
    with Inr r show ?thesis by (simp add: snd_input_buffer_gets_def)
  qed
  with False show ?thesis by auto
qed

text \<open>
  C2: on the one-byte input \<open>a\<close> with a destination at address 100 and capacity 8,
  \<^verbatim>\<open>snd_input_buffer_gets\<close> copies one byte and returns the address 101 of the
  terminating zero byte (the pointer the loop advanced), not the destination 100.
\<close>

theorem gets_returns_end_of_line:
  "map_sum id fst (snd_input_buffer_gets \<lparr>buf = [97, 0], ptr = 0, size_b = 1\<rparr> 100 8 (\<lambda>_. 255))
     = Inr (Some 101)"
  by (simp add: snd_input_buffer_gets_def gets_loop.simps word_pos_iff Let_def)

text \<open>
  C3: on the two-byte input \<open>ab\<close> with a destination at address 100 and capacity 0,
  \<^verbatim>\<open>snd_input_buffer_gets\<close> copies both bytes and writes the terminating zero byte:
  three bytes are written to a destination of capacity 0, because \<^verbatim>\<open>--size\<close> wraps to
  the largest \<^verbatim>\<open>size_t\<close>.
\<close>

theorem gets_size_zero_overruns:
  "(case snd_input_buffer_gets \<lparr>buf = [97, 98, 0], ptr = 0, size_b = 2\<rparr> 100 0 (\<lambda>_. 255) of
      Inl e \<Rightarrow> False
    | Inr (r, buffer, m') \<Rightarrow>
        r = Some 102 \<and> buffer = \<lparr>buf = [97, 98, 0], ptr = 2, size_b = 0\<rparr> \<and>
        [m' 100, m' 101, m' 102] = [97, 98, 0])"
  by (simp add: snd_input_buffer_gets_def gets_loop.simps word_pos_iff Let_def)

text \<open>
  C7: when \<^verbatim>\<open>snd_input_buffer_getc\<close> has just returned a byte \<open>c\<close> (not \<^verbatim>\<open>EOF\<close>),
  \<^verbatim>\<open>snd_input_buffer_ungetc\<close> with \<open>c\<close> returns \<open>c\<close> and restores the state before the
  read, and the next \<^verbatim>\<open>snd_input_buffer_getc\<close> returns \<open>c\<close> again and leaves the cursor and
  the remaining count as they were before the push-back.
\<close>

theorem getc_ungetc_getc:
  assumes "snd_input_buffer_getc b0 = Inr (c, b1)" and "c \<noteq> EOF"
  shows "\<exists>b2. snd_input_buffer_ungetc b1 c = Inr (c, b2) \<and>
              snd_input_buffer_getc b2 = Inr (c, b1) \<and> b2 = b0"
proof -
  from assms have nz: "size_b b0 \<noteq> 0"
    by (auto simp: snd_input_buffer_getc_def)
  with assms(1) have inb: "ptr b0 < length (buf b0)"
    and c: "c = ucast (buf b0 ! ptr b0)"
    and b1: "b1 = b0\<lparr>size_b := size_b b0 - 1, ptr := ptr b0 + 1\<rparr>"
    by (auto simp: snd_input_buffer_getc_def Let_def split: if_splits)
  have "snd_input_buffer_ungetc b1 c = Inr (c, b0)"
    using inb by (simp add: snd_input_buffer_ungetc_def b1 c Let_def ucast_byte_int_byte)
  with assms(1) show ?thesis by simp
qed

theorem getc_ungetc_getc_witness:
  "snd_input_buffer_getc \<lparr>buf = [97, 98, 0], ptr = 0, size_b = 2\<rparr>
     = Inr (97, \<lparr>buf = [97, 98, 0], ptr = 1, size_b = 1\<rparr>) \<and>
   (97 :: c_int) \<noteq> EOF \<and>
   (\<exists>b2. snd_input_buffer_ungetc \<lparr>buf = [97, 98, 0], ptr = 1, size_b = 1\<rparr> 97 = Inr (97, b2) \<and>
      snd_input_buffer_getc b2 = Inr (97, \<lparr>buf = [97, 98, 0], ptr = 1, size_b = 1\<rparr>) \<and>
      b2 = \<lparr>buf = [97, 98, 0], ptr = 0, size_b = 2\<rparr>)"
proof -
  have g: "snd_input_buffer_getc \<lparr>buf = [97, 98, 0], ptr = 0, size_b = 2\<rparr>
     = Inr (97, \<lparr>buf = [97, 98, 0], ptr = 1, size_b = 1\<rparr>)"
    by (simp add: snd_input_buffer_getc_def)
  have e: "(97 :: c_int) \<noteq> EOF" by (simp add: EOF_def)
  from getc_ungetc_getc [OF g e] g e show ?thesis by simp
qed

text \<open>
  C4: for every buffer backend and every format, \<^verbatim>\<open>snd_input_buffer_scanf\<close> ends in the
  failed assertion \<^verbatim>\<open>assert(0)\<close>, with assertions compiled in; it never returns what
  \<^verbatim>\<open>vsscanf\<close> scanned.
\<close>

theorem buffer_scanf_fails:
  "snd_input_buffer_scanf vsscanf buffer format = Inl Assertion_failed"
  by (simp add: snd_input_buffer_scanf_def c_assert_def)

text \<open>
  C1: a handle attached to the open stream 3 with the close flag 0 is closed while the
  streams 3 and 4 are open. \<^verbatim>\<open>snd_input_close\<close> returns 0 and the stream 3 is closed all
  the same: the condition of \<^verbatim>\<open>snd_input_stdio_close\<close> tests the function \<^verbatim>\<open>close\<close>, not
  the flag.
\<close>

theorem stdio_close_ignores_flag:
  "snd_input_stdio_attach True True True (Some 3) 0
     = Inr \<lparr>type = SND_INPUT_STDIO, ops = snd_input_stdio_ops,
            private_data = Stdio_data \<lparr>close = 0, fp = 3\<rparr>\<rparr> \<and>
   snd_input_close \<lparr>type = SND_INPUT_STDIO, ops = snd_input_stdio_ops,
            private_data = Stdio_data \<lparr>close = 0, fp = 3\<rparr>\<rparr> {3, 4} = Inr (0, {4})"
  by (simp add: snd_input_stdio_attach_def snd_input_close_def snd_input_stdio_close_def
      unistd_close_def fclose_def)




text \<open>
  C9: after \<^verbatim>\<open>snd_input_buffer_open\<close> has built a backend and any sequence of calls of
  \<^verbatim>\<open>snd_input_buffer_getc\<close>, \<^verbatim>\<open>snd_input_buffer_ungetc\<close> and \<^verbatim>\<open>snd_input_buffer_gets\<close> has
  run on it without an error, the invariant holds for the size recorded at the opening
  (the size argument when that is not negative): the remaining count is at most the
  allocated size less one, the cursor is within the original size of the start of the
  array, and cursor and remaining count add up to the original size.
\<close>

theorem buffer_invariant:
  assumes "snd_input_buffer_open inputp cb ci mb indet src size_arg = Inr input"
    and "private_data input = Buffer_data b0"
    and "do_calls cs (b0, m) = Inr (b, m')"
  shows "buffer_inv (unat (size_b b0)) b \<and>
         (0 \<le> sint size_arg \<longrightarrow> unat (size_b b0) = nat (sint size_arg))"
proof -
  from open_result [OF assms(1)] assms(2) obtain n where small: "n < 2 ^ 31 - 1"
    and imp: "0 \<le> sint size_arg \<longrightarrow> n = nat (sint size_arg)"
    and b0: "b0 = \<lparr>buf = take n src @ [0], ptr = 0, size_b = of_nat n\<rparr>"
    and src: "n \<le> length src"
    by auto
  from small have "n < 2 ^ 64" by (rule less_trans) simp
  then have un: "unat (of_nat n :: size_t) = n" by (simp add: unat_of_nat)
  have orig: "unat (size_b b0) = n" by (simp add: b0 un)
  have lt: "unat (size_b b0) < 2 ^ 64" using \<open>n < 2 ^ 64\<close> orig by simp
  have "buffer_inv (unat (size_b b0)) b0"
    unfolding orig using src by (simp add: buffer_inv_def b0 un)
  from do_calls_inv [OF lt this assms(3)] imp orig show ?thesis by simp
qed

theorem buffer_invariant_witness:
  "snd_input_buffer_open True True True True (\<lambda>_. 170) [97, 10, 98] 3
     = Inr \<lparr>type = SND_INPUT_BUFFER, ops = snd_input_buffer_ops,
            private_data = Buffer_data \<lparr>buf = [97, 10, 98, 0], ptr = 0, size_b = 3\<rparr>\<rparr> \<and>
   do_calls [Getc, Ungetc 97, Gets 100 8, Getc] (\<lparr>buf = [97, 10, 98, 0], ptr = 0, size_b = 3\<rparr>, \<lambda>_. 255)
     = Inr (\<lparr>buf = [97, 10, 98, 0], ptr = 3, size_b = 0\<rparr>, (\<lambda>_. 255)(100 := 97, 101 := 10, 102 := 0)) \<and>
   buffer_inv 3 \<lparr>buf = [97, 10, 98, 0], ptr = 3, size_b = 0\<rparr>"
proof -
  have o: "snd_input_buffer_open True True True True (\<lambda>_. 170) [97, 10, 98] 3
     = Inr \<lparr>type = SND_INPUT_BUFFER, ops = snd_input_buffer_ops,
            private_data = Buffer_data \<lparr>buf = [97, 10, 98, 0], ptr = 0, size_b = 3\<rparr>\<rparr>"
    by (simp add: snd_input_buffer_open_def upt_conv_Cons)
  have p: "private_data \<lparr>type = SND_INPUT_BUFFER, ops = snd_input_buffer_ops,
            private_data = Buffer_data \<lparr>buf = [97, 10, 98, 0], ptr = 0, size_b = 3\<rparr>\<rparr>
      = Buffer_data \<lparr>buf = [97, 10, 98, 0], ptr = 0, size_b = 3\<rparr>"
    by simp
  have c: "do_calls [Getc, Ungetc 97, Gets 100 8, Getc] (\<lparr>buf = [97, 10, 98, 0], ptr = 0, size_b = 3\<rparr>, \<lambda>_. 255)
     = Inr (\<lparr>buf = [97, 10, 98, 0], ptr = 3, size_b = 0\<rparr>, (\<lambda>_. 255)(100 := 97, 101 := 10, 102 := 0))"
    by (simp add: snd_input_buffer_getc_def snd_input_buffer_ungetc_def snd_input_buffer_gets_def
        gets_loop.simps word_pos_iff Let_def)
  from buffer_invariant [OF o p c] o c show ?thesis by simp
qed

end
